theory Spec2Isabelle
  imports Main "HOL-Library.Word"
begin

section \<open>BufferedStream: the data model\<close>

text \<open>
  A shallow embedding of \<^verbatim>\<open>bufferedstream.js\<close>. A Node \<^verbatim>\<open>Buffer\<close> is a list of bytes;
  the \<^verbatim>\<open>chunk\<close> argument of \<^verbatim>\<open>write\<close> and \<^verbatim>\<open>end\<close> is a string or a Buffer.
  The object's fields are the fields of the record \<open>stream\<close>; the fields \<^verbatim>\<open>size\<close>,
  \<^verbatim>\<open>_buffer\<close>, \<^verbatim>\<open>_wait\<close>, \<^verbatim>\<open>_flushing\<close> and \<^verbatim>\<open>_wasFull\<close> are written \<open>size_bs\<close>,
  \<open>buffer\<close>, \<open>wait\<close>, \<open>flushing\<close> and \<open>wasFull\<close>, and the methods \<^verbatim>\<open>write\<close> and
  \<^verbatim>\<open>end\<close> and the getter \<^verbatim>\<open>empty\<close> are \<open>write_bs\<close>, \<open>end_bs\<close> and \<open>empty_bs\<close>.
  Sizes and the maximal size are integers. Two more fields make the surroundings of the
  object explicit: \<open>ticks\<close> is the queue of callbacks this stream has handed to
  \<^verbatim>\<open>process.nextTick\<close> and that have not run yet (first in, first out), and \<open>emitted\<close>
  is the history of the signals passed to \<^verbatim>\<open>emit\<close>, oldest first.
\<close>

type_synonym byte = "8 word"

type_synonym chunk = "byte list"

datatype data = Str string | Buf chunk

text \<open>
  The argument of a \<^verbatim>\<open>data\<close> signal: the chunk itself, or the string
  \<^verbatim>\<open>chunk.toString(encoding)\<close>.
\<close>

datatype payload = Bytes chunk | Text string

datatype signal = DataEv payload | DrainEv | PauseEv | ResumeEv | EndEv

text \<open>The two closures named \<^verbatim>\<open>tick\<close> in the source.\<close>

datatype task = FlushTick | EndTick

text \<open>
  The two errors the source throws, and the \<^verbatim>\<open>TypeError\<close> that \<^verbatim>\<open>new Buffer\<close> and
  \<^verbatim>\<open>toString\<close> throw for an encoding Buffer does not know.
\<close>

datatype error = NotWritable | AlreadyEnded | UnknownEncoding

text \<open>What a listener of \<^verbatim>\<open>data\<close> may call on the stream while the signal is delivered.\<close>

datatype gate = GPause | GResume

text \<open>
  The surroundings of the stream that the source does not define: \<open>new_Buffer\<close> is
  \<^verbatim>\<open>new Buffer(chunk, encoding)\<close> on a string and \<open>toString\<close> is \<^verbatim>\<open>chunk.toString(encoding)\<close>,
  both \<open>None\<close> where Buffer throws; \<open>onData\<close> is the consumer: given the
  signals emitted so far, the last being the \<^verbatim>\<open>data\<close> signal under delivery, it answers
  with the calls of \<^verbatim>\<open>pause\<close> and \<^verbatim>\<open>resume\<close> it makes before \<^verbatim>\<open>emit\<close> returns.
  Listeners of the other signals, and calls other than \<^verbatim>\<open>pause\<close> and \<^verbatim>\<open>resume\<close>, are
  taken to happen between two steps, as calls of their own.
\<close>

record env =
  new_Buffer :: "string \<Rightarrow> string option \<Rightarrow> chunk option"
  toString :: "chunk \<Rightarrow> string \<Rightarrow> string option"
  onData :: "signal list \<Rightarrow> gate list"

record stream =
  size_bs :: int
  encoding :: "string option"
  readable :: bool
  writable :: bool
  ended :: bool
  maxSize :: int
  buffer :: "chunk list"
  wait :: bool
  flushing :: bool
  wasFull :: bool
  ticks :: "task list"
  emitted :: "signal list"

section \<open>The operations\<close>

definition empty_bs :: "stream \<Rightarrow> bool" where
  "empty_bs this = (length (buffer this) = 0)"

definition full :: "stream \<Rightarrow> bool" where
  "full this = (maxSize this \<ge> 0 \<and> maxSize this < size_bs this)"

definition setEncoding :: "string option \<Rightarrow> stream \<Rightarrow> stream" where
  "setEncoding enc this = this\<lparr>encoding := enc\<rparr>"

text \<open>\<^verbatim>\<open>process.nextTick(tick)\<close>: the callback joins the queue at its end.\<close>

definition nextTick :: "task \<Rightarrow> stream \<Rightarrow> stream" where
  "nextTick t this = this\<lparr>ticks := ticks this @ [t]\<rparr>"

text \<open>\<^verbatim>\<open>emit\<close> of a signal whose listeners do not call back.\<close>

definition emit :: "signal \<Rightarrow> stream \<Rightarrow> stream" where
  "emit s this = this\<lparr>emitted := emitted this @ [s]\<rparr>"

definition flushOnNextTick :: "stream \<Rightarrow> stream" where
  "flushOnNextTick this = nextTick FlushTick this"

definition emitEndDestroyNextTick :: "stream \<Rightarrow> stream" where
  "emitEndDestroyNextTick this = nextTick EndTick this"

definition pause :: "stream \<Rightarrow> stream" where
  "pause this = emit PauseEv (this\<lparr>wait := True\<rparr>)"

definition resume :: "stream \<Rightarrow> stream" where
  "resume this =
     (let this1 = emit ResumeEv (this\<lparr>wait := False\<rparr>);
          this2 = (if \<not> empty_bs this1 then flushOnNextTick this1 else this1)
      in if ended this2 then emitEndDestroyNextTick this2 else this2)"

fun call_gate :: "stream \<Rightarrow> gate \<Rightarrow> stream" where
  "call_gate this GPause = pause this"
| "call_gate this GResume = resume this"

text \<open>\<^verbatim>\<open>emit("data", p)\<close>: the signal is recorded, then the consumer reacts.\<close>

definition emit_data :: "env \<Rightarrow> payload \<Rightarrow> stream \<Rightarrow> stream" where
  "emit_data env p this =
     (let this1 = emit (DataEv p) this
      in foldl call_gate this1 (onData env (emitted this1)))"

text \<open>JavaScript's truth value of \<^verbatim>\<open>this.encoding\<close>: \<^verbatim>\<open>null\<close> and the empty string are false.\<close>

definition truthy :: "string option \<Rightarrow> bool" where
  "truthy enc = (case enc of None \<Rightarrow> False | Some s \<Rightarrow> s \<noteq> [])"

definition to_chunk :: "env \<Rightarrow> data \<Rightarrow> string option \<Rightarrow> chunk option" where
  "to_chunk env d enc = (case d of Str s \<Rightarrow> new_Buffer env s enc | Buf b \<Rightarrow> Some b)"

text \<open>
  \<^verbatim>\<open>write\<close> returns \<open>Inl\<close> where it throws: by its own test, or in \<^verbatim>\<open>new Buffer\<close>; both
  come before it has changed anything. Otherwise it returns its boolean with the stream
  after the call.
\<close>

definition write_bs :: "env \<Rightarrow> data \<Rightarrow> string option \<Rightarrow> stream \<Rightarrow> error + (bool \<times> stream)" where
  "write_bs env d enc this =
     (if \<not> writable this \<or> ended this then Inl NotWritable
      else
        (case to_chunk env d enc of
           None \<Rightarrow> Inl UnknownEncoding
         | Some chunk \<Rightarrow>
             (let this1 = this\<lparr>buffer := buffer this @ [chunk]\<rparr>;
                  this2 = this1\<lparr>size_bs := size_bs this1 + int (length chunk)\<rparr>;
                  this3 = (if \<not> flushing this2
                           then (flushOnNextTick this2)\<lparr>flushing := True\<rparr>
                           else this2)
              in if full this3 then Inr (False, this3\<lparr>wasFull := True\<rparr>)
                 else Inr (True, this3))))"

lemma buffer_foldl_call_gate [simp]:
  "buffer (foldl call_gate this gs) = buffer this"
proof (induction gs arbitrary: this)
  case Nil
  show ?case by simp
next
  case (Cons g gs)
  show ?case
    by (cases g)
       (simp_all add: Cons.IH pause_def resume_def emit_def flushOnNextTick_def
          emitEndDestroyNextTick_def nextTick_def Let_def)
qed

lemma buffer_emit_data [simp]: "buffer (emit_data env p this) = buffer this"
  by (simp add: emit_data_def Let_def emit_def)

text \<open>
  The \<^verbatim>\<open>while\<close> loop of \<^verbatim>\<open>flush\<close>. The result is the stream as the loop leaves it and,
  when \<^verbatim>\<open>toString\<close> threw, the error: by then the chunk has left the queue and the size,
  and no signal carries it.
\<close>

function flush_loop :: "env \<Rightarrow> stream \<Rightarrow> stream \<times> error option" where
  "flush_loop env this =
     (if \<not> wait this \<and> readable this \<and> buffer this \<noteq> [] then
        (let chunk = hd (buffer this);
             this1 = this\<lparr>buffer := tl (buffer this)\<rparr>;
             this2 = this1\<lparr>size_bs := size_bs this1 - int (length chunk)\<rparr>
         in if truthy (encoding this2) then
              (case toString env chunk (the (encoding this2)) of
                 None \<Rightarrow> (this2, Some UnknownEncoding)
               | Some str \<Rightarrow> flush_loop env (emit_data env (Text str) this2))
            else flush_loop env (emit_data env (Bytes chunk) this2))
      else (this, None))"
  by pat_completeness auto

termination
  by (relation "measure (\<lambda>(env, this). length (buffer this))") auto

declare flush_loop.simps [simp del]

text \<open>\<^verbatim>\<open>flush\<close>: an error of the loop passes through, and the test for \<^verbatim>\<open>drain\<close> is skipped.\<close>

definition flush :: "env \<Rightarrow> stream \<Rightarrow> stream \<times> error option" where
  "flush env this =
     (case flush_loop env this of
        (this1, Some e) \<Rightarrow> (this1, Some e)
      | (this1, None) \<Rightarrow>
          (if wasFull this1 \<and> \<not> full this1
           then (emit DrainEv (this1\<lparr>wasFull := False\<rparr>), None)
           else (this1, None)))"

text \<open>\<^verbatim>\<open>end\<close>; \<open>None\<close> for the chunk is the call without arguments.\<close>

definition end_bs :: "env \<Rightarrow> data option \<Rightarrow> string option \<Rightarrow> stream \<Rightarrow> error + stream" where
  "end_bs env d enc this =
     (if ended this then Inl AlreadyEnded
      else
        (case (case d of None \<Rightarrow> Inr this
                | Some c \<Rightarrow> map_sum id snd (write_bs env c enc this)) of
           Inl e \<Rightarrow> Inl e
         | Inr this1 \<Rightarrow> Inr (emitEndDestroyNextTick (this1\<lparr>ended := True\<rparr>))))"

definition destroy :: "stream \<Rightarrow> stream" where
  "destroy this = this\<lparr>buffer := [], readable := False, writable := False\<rparr>"

text \<open>
  The bodies of the two callbacks. When \<^verbatim>\<open>flush\<close> throws, the rest of the callback does
  not run.
\<close>

fun tick :: "env \<Rightarrow> task \<Rightarrow> stream \<Rightarrow> stream \<times> error option" where
  "tick env FlushTick self =
     (case flush env self of
        (self1, Some e) \<Rightarrow> (self1, Some e)
      | (self1, None) \<Rightarrow>
          (if empty_bs self1 then (self1\<lparr>flushing := False\<rparr>, None)
           else if wait self1 then (self1, None)
           else (nextTick FlushTick self1, None)))"
| "tick env EndTick self =
     (if empty_bs self then (emit EndEv (destroy self), None)
      else if wait self then (self, None)
      else (nextTick EndTick self, None))"

text \<open>
  One scheduled step: the oldest pending callback is taken from the queue and run. The
  result is the stream after the step, as the callback leaves it also when it throws.
\<close>

definition run_tick :: "env \<Rightarrow> stream \<Rightarrow> stream" where
  "run_tick env this =
     (case ticks this of [] \<Rightarrow> this | t # ts \<Rightarrow> fst (tick env t (this\<lparr>ticks := ts\<rparr>)))"

text \<open>
  The constructor. Its first argument is \<open>None\<close> when the caller's first argument is not
  a number (the source then shifts the arguments); the source is absent, another stream
  (piped into this one: its writes arrive later as calls of \<^verbatim>\<open>write\<close> and \<^verbatim>\<open>end\<close>), or
  the whole contents.
\<close>

datatype source = Upstream | Literal data

definition new_stream :: "int \<Rightarrow> stream" where
  "new_stream m =
     \<lparr>size_bs = 0, encoding = None, readable = True, writable = True, ended = False,
      maxSize = m, buffer = [], wait = False, flushing = False, wasFull = False,
      ticks = [], emitted = []\<rparr>"

definition BufferedStream ::
  "env \<Rightarrow> int option \<Rightarrow> source option \<Rightarrow> string option \<Rightarrow> error + stream" where
  "BufferedStream env maxSize' source sourceEncoding =
     (let this = new_stream (case maxSize' of None \<Rightarrow> - 1 | Some m \<Rightarrow> m)
      in case source of
           None \<Rightarrow> Inr this
         | Some Upstream \<Rightarrow> Inr this
         | Some (Literal d) \<Rightarrow> end_bs env (Some d) sourceEncoding this)"

section \<open>Executions\<close>

text \<open>
  A call of the public interface, or one scheduled step. \<^verbatim>\<open>write\<close> and \<^verbatim>\<open>end\<close> leave the
  stream as it was when they throw; \<^verbatim>\<open>flush\<close> leaves it as its loop did. A call or step
  is interrupted when \<^verbatim>\<open>toString\<close> throws inside \<^verbatim>\<open>flush\<close>.
\<close>

datatype action =
  Write data "string option"
| End "data option" "string option"
| Pause
| Resume
| Flush
| Destroy
| SetEncoding "string option"
| Tick

fun exec :: "env \<Rightarrow> stream \<Rightarrow> action \<Rightarrow> stream" where
  "exec env this (Write d e) =
     (case write_bs env d e this of Inl _ \<Rightarrow> this | Inr (_, this') \<Rightarrow> this')"
| "exec env this (End d e) =
     (case end_bs env d e this of Inl _ \<Rightarrow> this | Inr this' \<Rightarrow> this')"
| "exec env this Pause = pause this"
| "exec env this Resume = resume this"
| "exec env this Flush = fst (flush env this)"
| "exec env this Destroy = destroy this"
| "exec env this (SetEncoding e) = setEncoding e this"
| "exec env this Tick = run_tick env this"

fun interrupted :: "env \<Rightarrow> stream \<Rightarrow> action \<Rightarrow> bool" where
  "interrupted env this Flush = (snd (flush env this) \<noteq> None)"
| "interrupted env this Tick =
     (case ticks this of [] \<Rightarrow> False
      | t # ts \<Rightarrow> snd (tick env t (this\<lparr>ticks := ts\<rparr>)) \<noteq> None)"
| "interrupted env this a = False"

text \<open>The signal a call of \<^verbatim>\<open>pause\<close> or \<^verbatim>\<open>resume\<close> emits.\<close>

fun gate_signal :: "gate \<Rightarrow> signal" where
  "gate_signal GPause = PauseEv"
| "gate_signal GResume = ResumeEv"

text \<open>
  A run of calls and scheduled steps, and the streams that can arise while no \<^verbatim>\<open>flush\<close>
  is interrupted: a stream as the constructor returns it, and whatever a call or a
  scheduled step that is not interrupted makes of one.
\<close>

fun run :: "env \<Rightarrow> stream \<Rightarrow> action list \<Rightarrow> stream" where
  "run env this [] = this"
| "run env this (a # as) = run env (exec env this a) as"

inductive reachable :: "env \<Rightarrow> stream \<Rightarrow> bool" for env :: env where
  constructed: "BufferedStream env m src e = Inr this \<Longrightarrow> reachable env this"
| step: "reachable env this \<Longrightarrow> \<not> interrupted env this a \<Longrightarrow> reachable env (exec env this a)"

text \<open>
  The chunks a call takes into the queue (none when it throws), and those a run takes.
\<close>

fun the_list :: "'a option \<Rightarrow> 'a list" where
  "the_list None = []"
| "the_list (Some x) = [x]"

fun accepts :: "env \<Rightarrow> stream \<Rightarrow> action \<Rightarrow> chunk list" where
  "accepts env this (Write d e) =
     (case write_bs env d e this of Inl _ \<Rightarrow> [] | Inr _ \<Rightarrow> the_list (to_chunk env d e))"
| "accepts env this (End (Some d) e) =
     (case end_bs env (Some d) e this of Inl _ \<Rightarrow> [] | Inr _ \<Rightarrow> the_list (to_chunk env d e))"
| "accepts env this a = []"


text \<open>The arguments of the \<^verbatim>\<open>data\<close> signals in a history.\<close>

fun data_payloads :: "signal list \<Rightarrow> payload list" where
  "data_payloads [] = []"
| "data_payloads (DataEv p # ss) = p # data_payloads ss"
| "data_payloads (s # ss) = data_payloads ss"

text \<open>A callback that emits \<^verbatim>\<open>end\<close> is pending only on a stream that has ended.\<close>

definition end_pending_ok :: "stream \<Rightarrow> bool" where
  "end_pending_ok this \<longleftrightarrow> (EndTick \<in> set (ticks this) \<longrightarrow> ended this)"

text \<open>The size is the sum of the lengths of the chunks in the queue.\<close>

definition accounted :: "stream \<Rightarrow> bool" where
  "accounted this \<longleftrightarrow> size_bs this = (\<Sum>c\<leftarrow>buffer this. int (length c))"


text \<open>
  Surroundings for the examples: Buffer knows the encodings \<^verbatim>\<open>utf8\<close>, \<^verbatim>\<open>ascii\<close> and
  \<^verbatim>\<open>binary\<close> and takes \<^verbatim>\<open>utf8\<close> when none is given, every character is one byte, and
  the consumer never calls back.
\<close>

definition known :: "string \<Rightarrow> bool" where
  "known enc = (enc \<in> set [''utf8'', ''ascii'', ''binary''])"

definition plain_env :: env where
  "plain_env =
     \<lparr>new_Buffer = (\<lambda>s enc. case enc of
          None \<Rightarrow> Some (map of_char s)
        | Some e \<Rightarrow> if known e then Some (map of_char s) else None),
      toString = (\<lambda>c e. if known e then Some (map (\<lambda>b. char_of (unat b)) c) else None),
      onData = (\<lambda>h. [])\<rparr>"

text \<open>The same, with a consumer that calls \<^verbatim>\<open>pause\<close> at every \<^verbatim>\<open>data\<close> signal.\<close>

definition pausing_env :: env where
  "pausing_env = plain_env\<lparr>onData := (\<lambda>h. [GPause])\<rparr>"

text \<open>The equations that evaluate a run on a given stream.\<close>

lemmas eval_simps = new_stream_def end_bs_def write_bs_def resume_def pause_def emit_def
  emit_data_def flush_def flush_loop.simps destroy_def run_tick_def nextTick_def
  flushOnNextTick_def emitEndDestroyNextTick_def full_def empty_bs_def setEncoding_def
  truthy_def to_chunk_def plain_env_def pausing_env_def known_def Let_def BufferedStream_def

section \<open>Single calls\<close>

text \<open>
  Claim C3 (backpressure): on a writable stream that has not ended, \<^verbatim>\<open>write\<close> appends the
  chunk to the queue and adds its length to the size, and returns \<^verbatim>\<open>false\<close> if and only
  if the stream is full right after that, where full means that the maximal size is not
  negative and the size exceeds it. Fullness never makes the call fail: the call fails
  only where \<^verbatim>\<open>new Buffer\<close> does, before there is a chunk to append.
\<close>

theorem write_backpressure:
  assumes "writable this" and "\<not> ended this"
  shows "case to_chunk env d enc of
           None \<Rightarrow> write_bs env d enc this = Inl UnknownEncoding
         | Some c \<Rightarrow>
             (\<exists>r this'. write_bs env d enc this = Inr (r, this')
                \<and> buffer this' = buffer this @ [c]
                \<and> size_bs this' = size_bs this + int (length c)
                \<and> maxSize this' = maxSize this
                \<and> (r = False \<longleftrightarrow> full this')
                \<and> (full this' \<longleftrightarrow> maxSize this' \<ge> 0 \<and> size_bs this' > maxSize this'))"
  using assms
  by (auto simp add: write_bs_def Let_def full_def flushOnNextTick_def nextTick_def
      split: option.splits)

theorem write_backpressure_witness:
  "writable (new_stream 2) \<and> \<not> ended (new_stream 2)
   \<and> (\<exists>this'. write_bs plain_env (Str ''abc'') None (new_stream 2) = Inr (False, this')
          \<and> full this' \<and> buffer this' = [[97, 98, 99]] \<and> size_bs this' = 3)
   \<and> (\<exists>this'. write_bs plain_env (Str ''ab'') None (new_stream 2) = Inr (True, this')
          \<and> \<not> full this' \<and> size_bs this' = 2)"
  using write_backpressure [of "new_stream 2" plain_env "Str ''abc''" None]
    write_backpressure [of "new_stream 2" plain_env "Str ''ab''" None]
  by (auto simp add: new_stream_def to_chunk_def plain_env_def)

text \<open>
  Claim C10 (a chunk of length zero): on a writable stream that has not ended, writing a
  chunk of length zero succeeds and appends the chunk to the queue; the stream is then
  not empty, since \<open>empty_bs\<close> counts the chunks, and its size is what it was.
\<close>

theorem zero_length_write:
  assumes "writable this" and "\<not> ended this"
    and "to_chunk env d enc = Some c" and "length c = 0"
  shows "\<exists>r this'. write_bs env d enc this = Inr (r, this')
           \<and> buffer this' = buffer this @ [c]
           \<and> \<not> empty_bs this'
           \<and> size_bs this' = size_bs this"
  using assms
  by (auto simp add: write_bs_def Let_def full_def flushOnNextTick_def nextTick_def empty_bs_def)

theorem zero_length_write_witness:
  "writable (new_stream (- 1)) \<and> \<not> ended (new_stream (- 1))
   \<and> to_chunk plain_env (Str '''') None = Some []
   \<and> empty_bs (new_stream (- 1))
   \<and> (\<exists>r this'. write_bs plain_env (Str '''') None (new_stream (- 1)) = Inr (r, this')
          \<and> buffer this' = [[]] \<and> \<not> empty_bs this' \<and> size_bs this' = 0)"
  using zero_length_write [of "new_stream (- 1)" plain_env "Str ''''" None "[]"]
  by (auto simp add: new_stream_def to_chunk_def plain_env_def empty_bs_def)

text \<open>
  Claim C9 (what \<^verbatim>\<open>destroy\<close> changes): after \<^verbatim>\<open>destroy\<close> the stream is neither readable
  nor writable and its queue is empty; the size, the ended flag, the encoding, the maximal
  size and the paused flag are what they were. So a stream destroyed with data in its
  queue keeps its positive size although it is empty.
\<close>

theorem destroy_frame:
  "\<not> readable (destroy this) \<and> \<not> writable (destroy this) \<and> buffer (destroy this) = []
   \<and> size_bs (destroy this) = size_bs this
   \<and> ended (destroy this) = ended this
   \<and> encoding (destroy this) = encoding this
   \<and> maxSize (destroy this) = maxSize this
   \<and> wait (destroy this) = wait this
   \<and> (0 < size_bs this \<longrightarrow> 0 < size_bs (destroy this) \<and> empty_bs (destroy this))"
  by (simp add: destroy_def empty_bs_def)

theorem destroy_frame_witness:
  "size_bs (destroy (exec plain_env (new_stream (- 1)) (Write (Str ''abc'') None))) = 3
   \<and> empty_bs (destroy (exec plain_env (new_stream (- 1)) (Write (Str ''abc'') None)))
   \<and> buffer (exec plain_env (new_stream (- 1)) (Write (Str ''abc'') None)) = [[97, 98, 99]]"
  using destroy_frame [of "exec plain_env (new_stream (- 1)) (Write (Str ''abc'') None)"]
  by (simp add: new_stream_def write_bs_def Let_def full_def flushOnNextTick_def nextTick_def
      to_chunk_def plain_env_def)




section \<open>The loop of flush\<close>

lemma call_gate_frame:
  "size_bs (call_gate this g) = size_bs this \<and> maxSize (call_gate this g) = maxSize this
   \<and> wasFull (call_gate this g) = wasFull this \<and> encoding (call_gate this g) = encoding this
   \<and> readable (call_gate this g) = readable this \<and> writable (call_gate this g) = writable this
   \<and> ended (call_gate this g) = ended this \<and> flushing (call_gate this g) = flushing this
   \<and> emitted (call_gate this g) = emitted this @ [gate_signal g]
   \<and> set (ticks this) \<subseteq> set (ticks (call_gate this g))"
  by (cases g)
     (auto simp add: pause_def resume_def emit_def flushOnNextTick_def
        emitEndDestroyNextTick_def nextTick_def Let_def)

lemma foldl_call_gate_ticks:
  "set (ticks this) \<subseteq> set (ticks (foldl call_gate this gs))"
proof (induction gs arbitrary: this)
  case Nil
  show ?case by simp
next
  case (Cons g gs)
  show ?case
    using Cons.IH [of "call_gate this g"] call_gate_frame [of this g] by auto
qed

lemma emit_data_ticks: "set (ticks this) \<subseteq> set (ticks (emit_data env p this))"
  using foldl_call_gate_ticks [of "emit (DataEv p) this"]
  by (simp add: emit_data_def Let_def emit_def)

lemma foldl_call_gate_frame:
  "size_bs (foldl call_gate this gs) = size_bs this
   \<and> maxSize (foldl call_gate this gs) = maxSize this
   \<and> wasFull (foldl call_gate this gs) = wasFull this
   \<and> encoding (foldl call_gate this gs) = encoding this
   \<and> readable (foldl call_gate this gs) = readable this
   \<and> writable (foldl call_gate this gs) = writable this
   \<and> ended (foldl call_gate this gs) = ended this
   \<and> flushing (foldl call_gate this gs) = flushing this
   \<and> emitted (foldl call_gate this gs) = emitted this @ map gate_signal gs"
  by (induction gs arbitrary: this) (simp_all add: call_gate_frame)

lemma emit_data_frame:
  "size_bs (emit_data env p this) = size_bs this
   \<and> maxSize (emit_data env p this) = maxSize this
   \<and> wasFull (emit_data env p this) = wasFull this
   \<and> encoding (emit_data env p this) = encoding this
   \<and> readable (emit_data env p this) = readable this
   \<and> writable (emit_data env p this) = writable this
   \<and> ended (emit_data env p this) = ended this
   \<and> flushing (emit_data env p this) = flushing this
   \<and> emitted (emit_data env p this) =
       emitted this @ DataEv p # map gate_signal (onData env (emitted this @ [DataEv p]))"
  by (simp add: emit_data_def Let_def foldl_call_gate_frame emit_def)

lemmas emit_data_simps [simp] =
  emit_data_frame [THEN conjunct1]
  emit_data_frame [THEN conjunct2, THEN conjunct1]
  emit_data_frame [THEN conjunct2, THEN conjunct2, THEN conjunct1]
  emit_data_frame [THEN conjunct2, THEN conjunct2, THEN conjunct2, THEN conjunct1]
  emit_data_frame [THEN conjunct2, THEN conjunct2, THEN conjunct2, THEN conjunct2, THEN conjunct1]
  emit_data_frame [THEN conjunct2, THEN conjunct2, THEN conjunct2, THEN conjunct2, THEN conjunct2,
    THEN conjunct1]
  emit_data_frame [THEN conjunct2, THEN conjunct2, THEN conjunct2, THEN conjunct2, THEN conjunct2,
    THEN conjunct2, THEN conjunct1]
  emit_data_frame [THEN conjunct2, THEN conjunct2, THEN conjunct2, THEN conjunct2, THEN conjunct2,
    THEN conjunct2, THEN conjunct2, THEN conjunct1]
  emit_data_frame [THEN conjunct2, THEN conjunct2, THEN conjunct2, THEN conjunct2, THEN conjunct2,
    THEN conjunct2, THEN conjunct2, THEN conjunct2]

lemma flush_loop_stop:
  "wait this \<or> \<not> readable this \<or> buffer this = [] \<Longrightarrow> flush_loop env this = (this, None)"
  by (subst flush_loop.simps) auto

lemma flush_loop_rule:
  assumes "I this"
    and "\<And>s c cs p. I s \<Longrightarrow> \<not> wait s \<Longrightarrow> readable s \<Longrightarrow> buffer s = c # cs \<Longrightarrow>
           (if truthy (encoding s)
            then \<exists>str. toString env c (the (encoding s)) = Some str \<and> p = Text str
            else p = Bytes c) \<Longrightarrow>
           I (emit_data env p (s\<lparr>buffer := cs, size_bs := size_bs s - int (length c)\<rparr>))"
    and "\<And>s. I s \<Longrightarrow> wait s \<or> \<not> readable s \<or> buffer s = [] \<Longrightarrow> Q (s, None)"
    and "\<And>s c cs. I s \<Longrightarrow> \<not> wait s \<Longrightarrow> readable s \<Longrightarrow> buffer s = c # cs \<Longrightarrow>
           truthy (encoding s) \<Longrightarrow> toString env c (the (encoding s)) = None \<Longrightarrow>
           Q (s\<lparr>buffer := cs, size_bs := size_bs s - int (length c)\<rparr>, Some UnknownEncoding)"
  shows "Q (flush_loop env this)"
  using assms
proof (induction env this rule: flush_loop.induct)
  case (1 env this)
  note emit = "1.prems"(2) and stop = "1.prems"(3) and throw = "1.prems"(4)
  show ?case
  proof (cases "\<not> wait this \<and> readable this \<and> buffer this \<noteq> []")
    case False
    then show ?thesis
      using stop [OF "1.prems"(1)] by (simp add: flush_loop_stop)
  next
    case True
    then obtain c cs where b: "buffer this = c # cs"
      by (cases "buffer this") auto
    let ?s = "this\<lparr>buffer := cs, size_bs := size_bs this - int (length c)\<rparr>"
    show ?thesis
    proof (cases "truthy (encoding this)")
      case False
      have eq: "flush_loop env this = flush_loop env (emit_data env (Bytes c) ?s)"
        using True b False by (subst flush_loop.simps) (simp add: Let_def)
      have n: "I (emit_data env (Bytes c) ?s)"
        using emit [OF "1.prems"(1) _ _ b, of "Bytes c"] True False by simp
      have "Q (flush_loop env (emit_data env (Bytes c) ?s))"
        using "1.IH"(2) [OF True refl refl refl] n False b emit stop throw
        by simp
      then show ?thesis by (simp only: eq)
    next
      case t: True
      show ?thesis
      proof (cases "toString env c (the (encoding this))")
        case None
        have eq: "flush_loop env this = (?s, Some UnknownEncoding)"
          using True b t None by (subst flush_loop.simps) (simp add: Let_def)
        show ?thesis
          using throw [OF "1.prems"(1) _ _ b t None] True by (simp add: eq)
      next
        case (Some str)
        have eq: "flush_loop env this = flush_loop env (emit_data env (Text str) ?s)"
          using True b t Some by (subst flush_loop.simps) (simp add: Let_def)
        have n: "I (emit_data env (Text str) ?s)"
          using emit [OF "1.prems"(1) _ _ b, of "Text str"] True t Some by simp
        have "Q (flush_loop env (emit_data env (Text str) ?s))"
          using "1.IH"(1) [OF True refl refl refl] n t Some b emit stop throw
          by simp
        then show ?thesis by (simp only: eq)
      qed
    qed
  qed
qed

lemma data_payloads_append [simp]:
  "data_payloads (xs @ ys) = data_payloads xs @ data_payloads ys"
  by (induction xs rule: data_payloads.induct) simp_all

lemma data_payloads_gates [simp]: "data_payloads (map gate_signal gs) = []"
proof (induction gs)
  case Nil
  show ?case by simp
next
  case (Cons g gs)
  then show ?case by (cases g) simp_all
qed

lemma count_drain_gates [simp]: "count_list (map gate_signal gs) DrainEv = 0"
proof (induction gs)
  case Nil
  show ?case by simp
next
  case (Cons g gs)
  then show ?case by (cases g) simp_all
qed

lemma count_end_gates [simp]: "count_list (map gate_signal gs) EndEv = 0"
proof (induction gs)
  case Nil
  show ?case by simp
next
  case (Cons g gs)
  then show ?case by (cases g) simp_all
qed

lemma end_notin_gates [simp]: "EndEv \<notin> gate_signal ` S"
proof
  assume "EndEv \<in> gate_signal ` S"
  then obtain g where "EndEv = gate_signal g" by blast
  then show False by (cases g) simp_all
qed

text \<open>
  What the loop leaves alone, whether or not it is interrupted; when it is not, it stops
  on a paused or unreadable stream or on an empty queue; and without an encoding it is
  never interrupted.
\<close>

lemma flush_loop_frame:
  "maxSize (fst (flush_loop env this)) = maxSize this
   \<and> wasFull (fst (flush_loop env this)) = wasFull this
   \<and> encoding (fst (flush_loop env this)) = encoding this
   \<and> readable (fst (flush_loop env this)) = readable this
   \<and> writable (fst (flush_loop env this)) = writable this
   \<and> ended (fst (flush_loop env this)) = ended this
   \<and> flushing (fst (flush_loop env this)) = flushing this
   \<and> size_bs (fst (flush_loop env this)) \<le> size_bs this
   \<and> count_list (emitted (fst (flush_loop env this))) DrainEv = count_list (emitted this) DrainEv
   \<and> count_list (emitted (fst (flush_loop env this))) EndEv = count_list (emitted this) EndEv
   \<and> (EndEv \<in> set (emitted (fst (flush_loop env this))) \<longleftrightarrow> EndEv \<in> set (emitted this))
   \<and> set (ticks this) \<subseteq> set (ticks (fst (flush_loop env this)))"
  (is "?Q (flush_loop env this)")
proof (rule flush_loop_rule [where Q = ?Q and I = "\<lambda>s. ?Q (s, None)"])
  show "?Q (this, None)" by simp
next
  fix s :: stream and c :: chunk and cs :: "chunk list" and p
  assume "?Q (s, None)"
  then show "?Q (emit_data env p (s\<lparr>buffer := cs, size_bs := size_bs s - int (length c)\<rparr>), None)"
    using emit_data_ticks [of "s\<lparr>buffer := cs, size_bs := size_bs s - int (length c)\<rparr>" env p]
    by auto
next
  fix s :: stream
  assume "?Q (s, None)"
  then show "?Q (s, None)" .
next
  fix s :: stream and c :: chunk and cs :: "chunk list"
  assume "?Q (s, None)"
  then show "?Q (s\<lparr>buffer := cs, size_bs := size_bs s - int (length c)\<rparr>, Some UnknownEncoding)"
    by simp
qed


section \<open>The drain signal\<close>


text \<open>What a call of \<^verbatim>\<open>write\<close> or \<^verbatim>\<open>end\<close> that does not throw makes of the stream.\<close>

lemma exec_Write:
  "exec env this (Write d e) = this \<and> accepts env this (Write d e) = []
   \<or> (\<exists>c. to_chunk env d e = Some c \<and> writable this \<and> \<not> ended this
          \<and> accepts env this (Write d e) = [c]
          \<and> exec env this (Write d e) =
               this\<lparr>buffer := buffer this @ [c],
                    size_bs := size_bs this + int (length c),
                    flushing := True,
                    wasFull := (wasFull this
                      \<or> (0 \<le> maxSize this \<and> maxSize this < size_bs this + int (length c))),
                    ticks := (if flushing this then ticks this else ticks this @ [FlushTick])\<rparr>)"
  by (auto simp add: write_bs_def Let_def full_def flushOnNextTick_def nextTick_def
      split: option.splits)

lemma exec_End:
  "exec env this (End p e) = this \<and> accepts env this (End p e) = []
   \<or> (\<not> ended this \<and> p = None \<and> accepts env this (End p e) = []
        \<and> exec env this (End p e) = this\<lparr>ended := True, ticks := ticks this @ [EndTick]\<rparr>)
   \<or> (\<exists>d c. \<not> ended this \<and> writable this \<and> p = Some d \<and> to_chunk env d e = Some c
          \<and> accepts env this (End p e) = [c] \<and> accepts env this (Write d e) = [c]
          \<and> exec env this (End p e) =
               (exec env this (Write d e))
                 \<lparr>ended := True, ticks := ticks (exec env this (Write d e)) @ [EndTick]\<rparr>)"
  by (cases p)
     (auto simp add: end_bs_def write_bs_def Let_def full_def flushOnNextTick_def nextTick_def
        emitEndDestroyNextTick_def split: option.splits)







text \<open>What \<^verbatim>\<open>flush\<close> makes of the result of its loop, and the callback of the result of \<^verbatim>\<open>flush\<close>.\<close>

lemma flush_cases:
  "fst (flush env this) = fst (flush_loop env this)
     \<and> snd (flush env this) = snd (flush_loop env this)
   \<or> fst (flush env this) = emit DrainEv ((fst (flush_loop env this))\<lparr>wasFull := False\<rparr>)
     \<and> snd (flush env this) = None \<and> snd (flush_loop env this) = None
     \<and> wasFull (fst (flush_loop env this)) \<and> \<not> full (fst (flush_loop env this))"
proof (cases "flush_loop env this")
  case (Pair this1 e)
  then show ?thesis by (cases e) (auto simp add: flush_def)
qed

lemma tick_Flush:
  "fst (tick env FlushTick self) = fst (flush env self)
   \<or> fst (tick env FlushTick self) = (fst (flush env self))\<lparr>flushing := False\<rparr>
   \<or> fst (tick env FlushTick self) = nextTick FlushTick (fst (flush env self))"
proof (cases "flush env self")
  case (Pair self1 e)
  then show ?thesis by (cases e) auto
qed

section \<open>Two places where the source loses track\<close>

text \<open>
  In a stream that can arise, \<^verbatim>\<open>end\<close> is emitted only by a scheduled step, the callback
  of \<^verbatim>\<open>end\<close>, that finds the queue empty on a stream that has ended.
\<close>

lemma call_gate_end_ok: "end_pending_ok this \<Longrightarrow> end_pending_ok (call_gate this g)"
  by (cases g)
     (auto simp add: end_pending_ok_def pause_def resume_def emit_def flushOnNextTick_def
        emitEndDestroyNextTick_def nextTick_def Let_def)

lemma foldl_call_gate_end_ok:
  "end_pending_ok this \<Longrightarrow> end_pending_ok (foldl call_gate this gs)"
  by (induction gs arbitrary: this) (simp_all add: call_gate_end_ok)

lemma emit_data_end_ok:
  assumes "end_pending_ok this"
  shows "end_pending_ok (emit_data env p this)"
proof -
  have "end_pending_ok (emit (DataEv p) this)"
    using assms by (simp add: end_pending_ok_def emit_def)
  then show ?thesis
    by (simp add: emit_data_def Let_def foldl_call_gate_end_ok)
qed

lemma flush_end_ok:
  assumes "end_pending_ok this"
  shows "end_pending_ok (fst (flush env this))
         \<and> count_list (emitted (fst (flush env this))) EndEv = count_list (emitted this) EndEv"
proof -
  have "end_pending_ok (fst (flush_loop env this))"
  proof (rule flush_loop_rule [where Q = "\<lambda>r. end_pending_ok (fst r)" and I = end_pending_ok])
    show "end_pending_ok this" by (rule assms)
  next
    fix s :: stream and c :: chunk and cs :: "chunk list" and p
    assume "end_pending_ok s"
    then have "end_pending_ok (s\<lparr>buffer := cs, size_bs := size_bs s - int (length c)\<rparr>)"
      by (simp add: end_pending_ok_def)
    then show "end_pending_ok
        (emit_data env p (s\<lparr>buffer := cs, size_bs := size_bs s - int (length c)\<rparr>))"
      by (rule emit_data_end_ok)
  qed (simp_all add: end_pending_ok_def)
  then show ?thesis
    using flush_cases [of env this] flush_loop_frame [of env this]
    by (auto simp add: emit_def end_pending_ok_def)
qed

lemma exec_end_ok:
  assumes "end_pending_ok this"
  shows "end_pending_ok (exec env this a)
         \<and> count_list (emitted (exec env this a)) EndEv =
             count_list (emitted this) EndEv
               + (if a = Tick \<and> take 1 (ticks this) = [EndTick] \<and> buffer this = [] \<and> ended this
                  then 1 else 0)"
proof (cases a)
  case (Write d e)
  then show ?thesis
    using assms(1) exec_Write [of env this d e]
    by (auto simp add: end_pending_ok_def simp del: exec.simps accepts.simps split: if_splits)
next
  case (End p e)
  then show ?thesis
    using assms(1) exec_End [of env this p e] exec_Write [of env this "the p" e]
    by (auto simp add: end_pending_ok_def simp del: exec.simps accepts.simps split: if_splits)
next
  case Pause
  then show ?thesis using assms by (simp add: end_pending_ok_def pause_def emit_def)
next
  case Resume
  then show ?thesis
    using assms
    by (auto simp add: end_pending_ok_def resume_def emit_def Let_def flushOnNextTick_def
        emitEndDestroyNextTick_def nextTick_def)
next
  case Flush
  then show ?thesis using flush_end_ok [OF assms, of env] by simp
next
  case Destroy
  then show ?thesis using assms by (simp add: end_pending_ok_def destroy_def)
next
  case (SetEncoding e)
  then show ?thesis using assms by (simp add: end_pending_ok_def setEncoding_def)
next
  case Tick
  show ?thesis
  proof (cases "ticks this")
    case Nil
    then show ?thesis using Tick assms by (simp add: run_tick_def)
  next
    case (Cons t ts)
    have pre: "end_pending_ok (this\<lparr>ticks := ts\<rparr>)"
      using assms Cons by (simp add: end_pending_ok_def)
    show ?thesis
    proof (cases t)
      case FlushTick
      then show ?thesis
        using Tick Cons flush_end_ok [OF pre, of env]
          tick_Flush [of env "this\<lparr>ticks := ts\<rparr>"]
        by (auto simp add: run_tick_def nextTick_def end_pending_ok_def)
    next
      case EndTick
      then show ?thesis
        using Tick Cons assms
        by (simp add: run_tick_def nextTick_def emit_def destroy_def end_pending_ok_def
            empty_bs_def)
    qed
  qed
qed

lemma reachable_end_ok: "reachable env this \<Longrightarrow> end_pending_ok this"
proof (induction rule: reachable.induct)
  case (constructed m src e this)
  have n: "end_pending_ok (new_stream k)" for k
    by (simp add: end_pending_ok_def new_stream_def)
  show ?case
  proof (cases src)
    case None
    then show ?thesis using constructed n by (auto simp add: BufferedStream_def)
  next
    case (Some s)
    show ?thesis
    proof (cases s)
      case Upstream
      then show ?thesis using constructed n Some by (auto simp add: BufferedStream_def)
    next
      case (Literal d)
      let ?k = "case m of None \<Rightarrow> - 1 | Some k \<Rightarrow> k"
      have "exec env (new_stream ?k) (End (Some d) e) = this"
        using constructed Some Literal by (simp add: BufferedStream_def)
      then show ?thesis
        using exec_end_ok [OF n [of ?k], where a = "End (Some d) e" and env = env] by auto
    qed
  qed
next
  case (step this a)
  then show ?case using exec_end_ok by blast
qed

lemma end_signal_only_when_done:
  assumes "reachable env this"
  shows "count_list (emitted (exec env this a)) EndEv =
           count_list (emitted this) EndEv
             + (if a = Tick \<and> take 1 (ticks this) = [EndTick] \<and> buffer this = [] \<and> ended this
                then 1 else 0)"
  using exec_end_ok [OF reachable_end_ok [OF assms]] by blast


text \<open>
  Claim C2 (the end signal at most once) fails on the source: such a step can come more
  than once. \<^verbatim>\<open>resume\<close> schedules the callback that emits \<^verbatim>\<open>end\<close> whenever the stream
  has ended, whether or not one is pending or has run: after \<^verbatim>\<open>new BufferedStream()\<close>,
  \<^verbatim>\<open>end()\<close> and \<^verbatim>\<open>resume()\<close>, two scheduled steps emit \<^verbatim>\<open>end\<close> twice.
\<close>

theorem end_signal_twice:
  "BufferedStream plain_env None None None = Inr (new_stream (- 1))
   \<and> emitted (run plain_env (new_stream (- 1)) [End None None, Resume, Tick, Tick])
       = [ResumeEv, EndEv, EndEv]"
  by (simp add: eval_simps)

text \<open>
  \<^verbatim>\<open>write\<close> and \<^verbatim>\<open>flush\<close> keep the size in step with the queue, and so does every
  call and scheduled step other than \<^verbatim>\<open>destroy\<close>.
\<close>

lemma flush_accounted: "accounted this \<Longrightarrow> accounted (fst (flush env this))"
proof -
  assume a: "accounted this"
  have "accounted (fst (flush_loop env this))"
  proof (rule flush_loop_rule [where Q = "\<lambda>r. accounted (fst r)" and I = accounted])
    show "accounted this" by (rule a)
  next
    fix s :: stream and c :: chunk and cs :: "chunk list" and p
    assume "accounted s" and "buffer s = c # cs"
    then show "accounted
        (emit_data env p (s\<lparr>buffer := cs, size_bs := size_bs s - int (length c)\<rparr>))"
      by (simp add: accounted_def)
  qed (simp_all add: accounted_def)
  then show ?thesis
    using flush_cases [of env this] by (auto simp add: emit_def accounted_def)
qed

lemma exec_accounted:
  assumes "accounted this" and "a \<noteq> Destroy"
  shows "accounted (exec env this a)"
proof (cases a)
  case (Write d e)
  then show ?thesis
    using assms(1) exec_Write [of env this d e]
    by (auto simp add: accounted_def simp del: exec.simps accepts.simps split: if_splits)
next
  case (End p e)
  then show ?thesis
    using assms(1) exec_End [of env this p e] exec_Write [of env this "the p" e]
    by (auto simp add: accounted_def simp del: exec.simps accepts.simps split: if_splits)
next
  case Pause
  then show ?thesis using assms(1) by (simp add: accounted_def pause_def emit_def)
next
  case Resume
  then show ?thesis
    using assms(1)
    by (simp add: accounted_def resume_def emit_def Let_def flushOnNextTick_def
        emitEndDestroyNextTick_def nextTick_def)
next
  case Flush
  then show ?thesis using flush_accounted [OF assms(1), of env] by simp
next
  case Destroy
  then show ?thesis using assms(2) by simp
next
  case (SetEncoding e)
  then show ?thesis using assms(1) by (simp add: accounted_def setEncoding_def)
next
  case Tick
  show ?thesis
  proof (cases "ticks this")
    case Nil
    then show ?thesis using Tick assms(1) by (simp add: run_tick_def)
  next
    case (Cons t ts)
    have pre: "accounted (this\<lparr>ticks := ts\<rparr>)"
      using assms(1) by (simp add: accounted_def)
    show ?thesis
    proof (cases t)
      case FlushTick
      then show ?thesis
        using Tick Cons flush_accounted [OF pre, of env]
          tick_Flush [of env "this\<lparr>ticks := ts\<rparr>"]
        by (auto simp add: run_tick_def nextTick_def accounted_def)
    next
      case EndTick
      then show ?thesis
        using Tick Cons assms(1)
        by (simp add: run_tick_def nextTick_def emit_def destroy_def accounted_def empty_bs_def)
    qed
  qed
qed

lemma run_accounted:
  "accounted this \<Longrightarrow> Destroy \<notin> set as \<Longrightarrow> accounted (run env this as)"
proof (induction as arbitrary: this)
  case Nil
  then show ?case by simp
next
  case (Cons a as)
  then have "a \<noteq> Destroy" and "Destroy \<notin> set as" by auto
  then show ?case
    using Cons.IH [OF exec_accounted [OF Cons.prems(1), of a env]] by simp
qed

text \<open>
  Claim C7 (the size is the sum of the lengths of the queued chunks) fails on the source.
  \<^verbatim>\<open>destroy\<close> replaces the queue and leaves the size: after \<^verbatim>\<open>new BufferedStream()\<close>,
  \<^verbatim>\<open>write("abc")\<close> and \<^verbatim>\<open>destroy()\<close> the queue is empty and the size is 3.
\<close>

theorem size_after_destroy:
  "BufferedStream plain_env None None None = Inr (new_stream (- 1))
   \<and> size_bs (run plain_env (new_stream (- 1)) [Write (Str ''abc'') None, Destroy]) = 3
   \<and> buffer (run plain_env (new_stream (- 1)) [Write (Str ''abc'') None, Destroy]) = []
   \<and> accounted (run plain_env (new_stream (- 1)) [Write (Str ''abc'') None])
   \<and> \<not> accounted (run plain_env (new_stream (- 1)) [Write (Str ''abc'') None, Destroy])"
  by (simp add: eval_simps accounted_def)

section \<open>Scheduled steps of a paused stream\<close>






section \<open>Ending an empty stream\<close>

lemma run_tick_idle:
  assumes "buffer this = []" and "\<not> wait this"
  shows "buffer (run_tick env this) = [] \<and> \<not> wait (run_tick env this)
         \<and> ticks (run_tick env this) = tl (ticks this)
         \<and> (ticks this = [EndTick] \<longrightarrow>
               emitted (run_tick env this) = emitted this @ [EndEv]
               \<and> \<not> readable (run_tick env this) \<and> \<not> writable (run_tick env this))"
proof (cases "ticks this")
  case Nil
  then show ?thesis using assms by (simp add: run_tick_def)
next
  case (Cons t ts)
  show ?thesis
  proof (cases t)
    case FlushTick
    have "flush_loop env (this\<lparr>ticks := ts\<rparr>) = (this\<lparr>ticks := ts\<rparr>, None)"
      using assms by (simp add: flush_loop_stop)
    then show ?thesis
      using Cons FlushTick assms
      by (simp add: run_tick_def flush_def emit_def empty_bs_def)
  next
    case EndTick
    then show ?thesis
      using Cons assms
      by (simp add: run_tick_def empty_bs_def emit_def destroy_def)
  qed
qed

lemma run_ticks_idle:
  assumes "buffer this = []" and "\<not> wait this" and "ticks this = ts @ [EndTick]"
  shows "emitted ((run_tick env ^^ Suc (length ts)) this) \<noteq> []
         \<and> last (emitted ((run_tick env ^^ Suc (length ts)) this)) = EndEv
         \<and> \<not> readable ((run_tick env ^^ Suc (length ts)) this)
         \<and> \<not> writable ((run_tick env ^^ Suc (length ts)) this)
         \<and> ticks ((run_tick env ^^ Suc (length ts)) this) = []"
  using assms
proof (induction ts arbitrary: this)
  case Nil
  then show ?case
    using run_tick_idle [of this env] by simp
next
  case (Cons t ts)
  let ?s = "run_tick env this"
  have st: "buffer ?s = []" "\<not> wait ?s" "ticks ?s = ts @ [EndTick]"
    using run_tick_idle [OF Cons.prems(1,2), of env] Cons.prems(3) by simp_all
  have eq: "(run_tick env ^^ Suc (length (t # ts))) this = (run_tick env ^^ Suc (length ts)) ?s"
    by (simp add: funpow_swap1)
  show ?case
    unfolding eq by (rule Cons.IH [OF st])
qed

text \<open>
  Claim C6 (termination after \<^verbatim>\<open>end\<close>): on a stream that is empty, not paused and has
  not ended, \<^verbatim>\<open>end()\<close> does not throw, marks the stream as ended and schedules one
  callback. When the callbacks pending before it and this one have run (one step more
  than were pending, so a single step when none was), the last signal emitted is \<^verbatim>\<open>end\<close>,
  the stream is neither readable nor writable and no callback is pending.
\<close>

theorem end_terminates:
  assumes "empty_bs this" and "\<not> wait this" and "\<not> ended this"
  shows "\<exists>this1. end_bs env None enc this = Inr this1
           \<and> ended this1
           \<and> ticks this1 = ticks this @ [EndTick]
           \<and> emitted ((run_tick env ^^ Suc (length (ticks this))) this1) \<noteq> []
           \<and> last (emitted ((run_tick env ^^ Suc (length (ticks this))) this1)) = EndEv
           \<and> \<not> readable ((run_tick env ^^ Suc (length (ticks this))) this1)
           \<and> \<not> writable ((run_tick env ^^ Suc (length (ticks this))) this1)
           \<and> ticks ((run_tick env ^^ Suc (length (ticks this))) this1) = []"
proof -
  let ?s = "emitEndDestroyNextTick (this\<lparr>ended := True\<rparr>)"
  have e: "end_bs env None enc this = Inr ?s"
    using assms(3) by (simp add: end_bs_def)
  have s: "buffer ?s = []" "\<not> wait ?s" "ticks ?s = ticks this @ [EndTick]" "ended ?s"
    using assms(1,2) by (simp_all add: emitEndDestroyNextTick_def nextTick_def empty_bs_def)
  show ?thesis
    using e s(3,4) run_ticks_idle [OF s(1,2,3), of env] by simp
qed

theorem end_terminates_witness:
  "empty_bs (new_stream 5) \<and> \<not> wait (new_stream 5) \<and> \<not> ended (new_stream 5)
   \<and> ticks (new_stream 5) = []
   \<and> (\<exists>this1. end_bs plain_env None None (new_stream 5) = Inr this1
          \<and> ticks this1 = [EndTick]
          \<and> emitted (run_tick plain_env this1) = [EndEv]
          \<and> \<not> readable (run_tick plain_env this1)
          \<and> \<not> writable (run_tick plain_env this1))"
  using end_terminates [of "new_stream 5" plain_env None]
  by (simp add: eval_simps)

section \<open>The order of the chunks\<close>




























end
